theory Spec2Isabelle
  imports Complex_Main
begin

section \<open>The Explorer of molpal (src/molpal/explorer.py)\<close>

text \<open>
  A shallow embedding of the class \<open>Explorer\<close>. The object is a record that every
  method takes and returns; a raised exception is the left summand of the result.

  Conventions of the embedding:
  \<^item> a Python \<open>dict\<close> is an association list in insertion order whose keys are
    distinct; \<open>d[x] = y\<close> is \<open>dict_set\<close> (replace in place, or append);
  \<^item> a Python \<open>float\<close> is a \<open>real\<close>: rounding, infinities and NaN are not modelled;
  \<^item> a value of type \<open>Union[int, float]\<close> is a \<open>pynum\<close>;
  \<^item> the collaborators (pool, acquirer, objective, model) are outside this module:
    the pool is the list of its identifiers, and what the objective returns for the
    acquired batch is an argument of the round that consumes it;
  \<^item> a score file is the list of its data rows (the header row is implicit); the
    second cell of a row is \<open>Some v\<close> when its text parses as the float \<open>v\<close> and
    \<open>None\<close> when \<open>float()\<close> rejects it, as it does for the empty cell that
    \<open>csv.writer\<close> writes for \<open>None\<close>. The file system is a map from paths to files.
\<close>

subsection \<open>Data\<close>

datatype pynum = PyInt int | PyFloat real

datatype error =
    ValueError
  | TypeError
  | ZeroDivisionError
  | FileNotFoundError
  | InvalidExplorationError
  | IncompatibilityError

type_synonym ident = string

type_synonym 'v dict = "(ident \<times> 'v) list"

text \<open>\<open>top_{m}_explored_iter_{epoch}.csv\<close> and \<open>all_explored_final.csv\<close> under
  \<open>{root}/{name}/data\<close>, and any other file by its name.\<close>

datatype path = TopExplored int int | AllExploredFinal | OtherFile string

type_synonym csv_row = "ident \<times> real option"

record explorer =
  pool :: "ident list"
  k_cfg :: pynum
  max_explore_cfg :: pynum
  delta :: real
  max_epochs :: int
  window_size :: nat
  write_intermediate :: bool
  retrain_from_scratch :: bool
  epoch :: int
  scores :: "real dict"
  failures :: "unit dict"
  new_scores :: "real dict"
  updated_model :: "bool option"
  recent_avgs :: "real list"
  top_k_avg :: "real option"
  y_preds :: "real list option"
  scores_csvs :: "path list"
  files :: "path \<Rightarrow> csv_row list option"

subsection \<open>Python primitives\<close>

text \<open>\<open>d[x] = y\<close> on a dict.\<close>

primrec dict_set :: "'v dict \<Rightarrow> ident \<Rightarrow> 'v \<Rightarrow> 'v dict" where
  "dict_set [] x y = [(x, y)]"
| "dict_set (p # ps) x y = (if fst p = x then (x, y) # ps else p # dict_set ps x y)"

text \<open>\<open>d.keys()\<close>.\<close>

definition dict_keys :: "'v dict \<Rightarrow> ident list" where
  "dict_keys d = map fst d"

text \<open>\<open>x in d\<close>.\<close>

definition dict_mem :: "ident \<Rightarrow> 'v dict \<Rightarrow> bool" where
  "dict_mem x d = (x \<in> set (dict_keys d))"

text \<open>\<open>int(x)\<close> on a float truncates towards zero.\<close>

definition py_int :: "real \<Rightarrow> int" where
  "py_int x = (if x < 0 then \<lceil>x\<rceil> else \<lfloor>x\<rfloor>)"

text \<open>Truth value of a number: zero is false.\<close>

fun truthy :: "pynum \<Rightarrow> bool" where
  "truthy (PyInt i) = (i \<noteq> 0)"
| "truthy (PyFloat f) = (f \<noteq> 0)"

text \<open>\<open>n <= 0\<close> for an int or a float.\<close>

fun num_le_zero :: "pynum \<Rightarrow> bool" where
  "num_le_zero (PyInt i) = (i \<le> 0)"
| "num_le_zero (PyFloat f) = (f \<le> 0)"

text \<open>\<open>sorted(items, key=itemgetter(1), reverse=True)\<close>: a stable sort, descending by
  the score.\<close>

definition sorted_desc :: "(ident \<times> real) list \<Rightarrow> (ident \<times> real) list" where
  "sorted_desc xs = sort_key (\<lambda>p. - snd p) xs"

text \<open>\<open>heapq.nlargest(n, items, key=itemgetter(1))\<close>, which the library documents as
  \<open>sorted(items, key=key, reverse=True)[:n]\<close>; it is empty for \<open>n <= 0\<close>.\<close>

definition nlargest :: "int \<Rightarrow> (ident \<times> real) list \<Rightarrow> (ident \<times> real) list" where
  "nlargest n xs = take (nat n) (sorted_desc xs)"

text \<open>\<open>append\<close> on a \<open>deque(maxlen=w)\<close>: the oldest entries leave on the left.\<close>

definition deque_append :: "nat \<Rightarrow> real list \<Rightarrow> real \<Rightarrow> real list" where
  "deque_append w xs x = (let ys = xs @ [x] in drop (length ys - w) ys)"

subsection \<open>The properties \<open>k\<close> and \<open>max_explore\<close>\<close>

text \<open>The getter of \<open>self.k\<close> (lines 185-193).\<close>

definition self_k :: "explorer \<Rightarrow> int" where
  "self_k s =
     (let k = (case k_cfg s of
                 PyFloat f \<Rightarrow> py_int (f * real (length (pool s)))
               | PyInt i \<Rightarrow> i)
      in min k (int (length (pool s))))"

text \<open>The setter of \<open>self.k\<close> (lines 195-204).\<close>

definition set_k :: "explorer \<Rightarrow> pynum \<Rightarrow> error + explorer" where
  "set_k s k = (if num_le_zero k then Inl ValueError else Inr (s\<lparr>k_cfg := k\<rparr>))"

text \<open>The getter of \<open>self.max_explore\<close> (lines 206-213).\<close>

definition max_explore :: "explorer \<Rightarrow> int" where
  "max_explore s =
     (case max_explore_cfg s of
        PyFloat f \<Rightarrow> py_int (f * real (length (pool s)))
      | PyInt i \<Rightarrow> i)"

text \<open>The setter of \<open>self.max_explore\<close> (lines 215-226).\<close>

definition set_max_explore :: "explorer \<Rightarrow> pynum \<Rightarrow> error + explorer" where
  "set_max_explore s m =
     (if num_le_zero m then Inl ValueError else Inr (s\<lparr>max_explore_cfg := m\<rparr>))"

subsection \<open>The stopping condition\<close>

text \<open>The property \<open>completed\<close> (lines 228-259). The moving average divides by the
  length of the window and the ratio divides by the moving average; \<open>top_k_avg\<close> may
  still be \<open>None\<close>.\<close>

definition completed :: "explorer \<Rightarrow> error + bool" where
  "completed s =
     (if epoch s > max_epochs s then Inr True
      else if int (length (scores s)) \<ge> max_explore s then Inr True
      else if length (recent_avgs s) < window_size s then Inr False
      else if recent_avgs s = [] then Inl ZeroDivisionError
      else
        (let moving_avg = sum_list (recent_avgs s) / real (length (recent_avgs s))
         in case top_k_avg s of
              None \<Rightarrow> Inl TypeError
            | Some a \<Rightarrow>
                if moving_avg = 0 then Inl ZeroDivisionError
                else Inr ((a - moving_avg) / moving_avg \<le> delta s)))"

subsection \<open>Top-k selection\<close>

text \<open>The first three lines of \<open>avg\<close>, \<open>top_explored\<close> and \<open>top_preds\<close>:
  \<^verbatim>\<open>k = k or self.k\<close>, then the resolution of a fraction, then the clamp to the
  number of scores.\<close>

definition resolve_k :: "explorer \<Rightarrow> pynum option \<Rightarrow> int" where
  "resolve_k s karg =
     (let k0 = (case karg of
                  None \<Rightarrow> PyInt (self_k s)
                | Some v \<Rightarrow> if truthy v then v else PyInt (self_k s));
          k1 = (case k0 of
                  PyFloat f \<Rightarrow> py_int (f * real (length (pool s)))
                | PyInt i \<Rightarrow> i)
      in min k1 (int (length (scores s))))"

text \<open>\<open>top_explored\<close> (lines 409-434). \<open>k / len(self.scores)\<close> raises on an empty
  score map.\<close>

definition top_explored :: "explorer \<Rightarrow> pynum option \<Rightarrow> error + (ident \<times> real) list" where
  "top_explored s karg =
     (let k = resolve_k s karg
      in if scores s = [] then Inl ZeroDivisionError
         else if real_of_int k / real (length (scores s)) < 0.8
           then Inr (nlargest k (scores s))
           else Inr (sorted_desc (scores s)))"

text \<open>\<open>avg\<close> (lines 382-407). In the branch \<open>k == len(self.pool)\<close> the generator yields
  the items of the dict, so \<open>sum\<close> adds a tuple to its start value \<open>0\<close>, which raises
  \<open>TypeError\<close>; over an empty dict the sum is \<open>0\<close> and the division raises.\<close>

definition avg :: "explorer \<Rightarrow> pynum option \<Rightarrow> error + real" where
  "avg s karg =
     (let k = resolve_k s karg
      in if k = int (length (pool s))
         then (if scores s = [] then Inl ZeroDivisionError else Inl TypeError)
         else
           (case top_explored s (Some (PyInt k)) of
              Inl e \<Rightarrow> Inl e
            | Inr tops \<Rightarrow>
                if k = 0 then Inl ZeroDivisionError
                else Inr (sum_list (map snd tops) / real_of_int k)))"


subsection \<open>Merging a batch of results\<close>

text \<open>\<open>__len__\<close> (lines 292-294).\<close>

definition explorer_len :: "explorer \<Rightarrow> int" where
  "explorer_len s = int (length (scores s)) + int (length (failures s))"

text \<open>\<open>_clean_and_update_scores\<close> (lines 593-617); the argument is the list of items
  of the dict \<open>new_scores\<close>.\<close>

fun clean_and_update_scores :: "explorer \<Rightarrow> real option dict \<Rightarrow> explorer" where
  "clean_and_update_scores s [] = s"
| "clean_and_update_scores s ((x, y) # rest) =
     clean_and_update_scores
       (case y of
          None \<Rightarrow> s\<lparr>failures := dict_set (failures s) x ()\<rparr>
        | Some v \<Rightarrow> s\<lparr>scores := dict_set (scores s) x v,
                       new_scores := dict_set (new_scores s) x v\<rparr>)
       rest"

text \<open>A sequence of result batches merged one after the other, and the identifiers
  that the batches report: with a score, without one, and at all.\<close>

definition merge_batches :: "explorer \<Rightarrow> real option dict list \<Rightarrow> explorer" where
  "merge_batches s bs = fold (\<lambda>b s'. clean_and_update_scores s' b) bs s"

definition succeeded_ids :: "real option dict list \<Rightarrow> ident set" where
  "succeeded_ids bs = set (dict_keys (filter (\<lambda>(x, y). y \<noteq> None) (concat bs)))"

definition failed_ids :: "real option dict list \<Rightarrow> ident set" where
  "failed_ids bs = set (dict_keys (filter (\<lambda>(x, y). y = None) (concat bs)))"

definition evaluated_ids :: "real option dict list \<Rightarrow> ident set" where
  "evaluated_ids bs = set (dict_keys (concat bs))"

subsection \<open>The model-update gate\<close>

text \<open>\<open>_update_model\<close> (lines 619-645). Training is the model's business; unpacking
  \<open>zip(*self.scores.items())\<close> raises \<open>ValueError\<close> on an empty score map.\<close>

definition update_model :: "explorer \<Rightarrow> error + explorer" where
  "update_model s =
     (if new_scores s = [] then Inr (s\<lparr>updated_model := Some False\<rparr>)
      else if retrain_from_scratch s \<and> scores s = [] then Inl ValueError
      else Inr (s\<lparr>new_scores := [], updated_model := Some True\<rparr>))"

text \<open>\<open>_update_predictions\<close> (lines 647-677); \<open>preds\<close> is what \<open>model.apply\<close> returns.
  Writing the predictions to a file is not modelled.\<close>

definition update_predictions :: "explorer \<Rightarrow> real list \<Rightarrow> explorer" where
  "update_predictions s preds =
     (if updated_model s \<noteq> Some True
         \<and> (case y_preds s of None \<Rightarrow> False | Some ys \<Rightarrow> ys \<noteq> [])
      then s
      else s\<lparr>y_preds := Some preds, updated_model := Some False\<rparr>)"

subsection \<open>Persistence\<close>

text \<open>\<open>write_scores\<close> (lines 464-512). The path joins the list of written files before
  the top scores are computed.\<close>

definition write_scores :: "explorer \<Rightarrow> pynum \<Rightarrow> bool \<Rightarrow> bool \<Rightarrow> error + explorer" where
  "write_scores s m final include_failed =
     (let m1 = (case m of
                  PyFloat f \<Rightarrow> py_int (f * real_of_int (explorer_len s))
                | PyInt i \<Rightarrow> i);
          m2 = min m1 (explorer_len s);
          m3 = (if final then explorer_len s else m2);
          p_scores = (if final then AllExploredFinal else TopExplored m2 (epoch s));
          inc = (final \<or> include_failed);
          s1 = s\<lparr>scores_csvs := scores_csvs s @ [p_scores]\<rparr>
      in case top_explored s1 (Some (PyInt m3)) of
           Inl e \<Rightarrow> Inl e
         | Inr top_m \<Rightarrow>
             Inr (s1\<lparr>files := (files s1)(p_scores \<mapsto>
                    map (\<lambda>(x, y). (x, Some y)) top_m
                    @ (if inc then map (\<lambda>(x, u). (x, None)) (failures s1) else []))\<rparr>))"

text \<open>The body of the loop of \<open>_read_scores\<close> (lines 696-699): a row whose second
  cell parses goes to the scores, any other row to the failures.\<close>

definition read_row :: "csv_row \<Rightarrow> real dict \<times> unit dict \<Rightarrow> real dict \<times> unit dict" where
  "read_row = (\<lambda>(x, c) (sc, fl).
                 case c of Some v \<Rightarrow> (dict_set sc x v, fl) | None \<Rightarrow> (sc, dict_set fl x ()))"

text \<open>\<open>_read_scores\<close> (lines 688-701).\<close>

definition read_scores ::
  "(path \<Rightarrow> csv_row list option) \<Rightarrow> path \<Rightarrow> error + (real dict \<times> unit dict)" where
  "read_scores fs scores_csv =
     (case fs scores_csv of
        None \<Rightarrow> Inl FileNotFoundError
      | Some rows \<Rightarrow> Inr (fold read_row rows ([], [])))"

text \<open>\<open>dict.update(other)\<close>.\<close>

definition dict_update :: "'v dict \<Rightarrow> 'v dict \<Rightarrow> 'v dict" where
  "dict_update d other = fold (\<lambda>(x, y) acc. dict_set acc x y) other d"

text \<open>\<open>load_scores\<close> (lines 514-540).\<close>

definition load_scores :: "explorer \<Rightarrow> path \<Rightarrow> error + explorer" where
  "load_scores s previous_scores =
     (case read_scores (files s) previous_scores of
        Inl e \<Rightarrow> Inl e
      | Inr (sc, fl) \<Rightarrow>
          (let s1 = s\<lparr>scores := dict_update (scores s) sc,
                       failures := dict_update (failures s) fl\<rparr>
           in Inr (if epoch s1 = 0 then s1\<lparr>epoch := 1\<rparr> else s1)))"

text \<open>One iteration of the loop of \<open>load\<close> (lines 560-574).\<close>

definition load_step :: "explorer \<Rightarrow> path \<Rightarrow> error + explorer" where
  "load_step s scores_csv =
     (case read_scores (files s) scores_csv of
        Inl e \<Rightarrow> Inl e
      | Inr (sc, fl) \<Rightarrow>
          (let s1 = s\<lparr>failures := fl\<rparr>;
               s2 = s1\<lparr>new_scores := filter (\<lambda>(smi, score). \<not> dict_mem smi (scores s1)) sc\<rparr>
           in case (if \<not> retrain_from_scratch s2 then update_model s2 else Inr s2) of
                Inl e \<Rightarrow> Inl e
              | Inr s3 \<Rightarrow>
                  (let s4 = s3\<lparr>scores := sc, epoch := epoch s3 + 1\<rparr>
                   in case avg s4 None of
                        Inl e \<Rightarrow> Inl e
                      | Inr a \<Rightarrow>
                          (let s5 = s4\<lparr>top_k_avg := Some a\<rparr>
                           in Inr (if int (length (scores s5)) \<ge> self_k s5
                                   then s5\<lparr>recent_avgs :=
                                          deque_append (window_size s5) (recent_avgs s5) a\<rparr>
                                   else s5)))))"

text \<open>The loop of \<open>load\<close> over a list of files.\<close>

fun load_files :: "explorer \<Rightarrow> path list \<Rightarrow> error + explorer" where
  "load_files s [] = Inr s"
| "load_files s (p # ps) =
     (case load_step s p of Inl e \<Rightarrow> Inl e | Inr s' \<Rightarrow> load_files s' ps)"

text \<open>\<open>load\<close> (lines 553-577).\<close>

definition load :: "explorer \<Rightarrow> error + explorer" where
  "load s = load_files s (scores_csvs s)"

subsection \<open>Rounds of exploration\<close>

text \<open>Lines 317-329 of \<open>explore_initial\<close>, which lines 368-380 of \<open>explore_batch\<close>
  repeat: merge the new scores, recompute the top-k average, feed the window, write
  the intermediate scores, advance the epoch and return the mean of the batch.\<close>

definition score_round :: "explorer \<Rightarrow> real option dict \<Rightarrow> error + (explorer \<times> real option)" where
  "score_round s batch =
     (let s1 = clean_and_update_scores s batch
      in case avg s1 None of
           Inl e \<Rightarrow> Inl e
         | Inr a \<Rightarrow>
             (let s2 = s1\<lparr>top_k_avg := Some a\<rparr>;
                  s3 = (if int (length (scores s2)) \<ge> self_k s2
                        then s2\<lparr>recent_avgs :=
                               deque_append (window_size s2) (recent_avgs s2) a\<rparr>
                        else s2)
              in case (if write_intermediate s3
                       then write_scores s3 (PyFloat 1) False True else Inr s3) of
                   Inl e \<Rightarrow> Inl e
                 | Inr s4 \<Rightarrow>
                     (let s5 = s4\<lparr>epoch := epoch s4 + 1\<rparr>;
                          valid_scores = List.map_filter snd batch
                      in if valid_scores = [] then Inl ZeroDivisionError
                         else Inr (s5, Some (sum_list valid_scores
                                             / real (length valid_scores))))))"

text \<open>\<open>explore_initial\<close> (lines 296-329); \<open>batch\<close> is what the objective returns for
  the inputs that the acquirer chose.\<close>

definition explore_initial ::
  "explorer \<Rightarrow> real option dict \<Rightarrow> error + (explorer \<times> real option)" where
  "explore_initial s batch = score_round s batch"

text \<open>\<open>explore_batch\<close> (lines 331-380).\<close>

definition explore_batch ::
  "explorer \<Rightarrow> real list \<Rightarrow> real option dict \<Rightarrow> error + (explorer \<times> real option)" where
  "explore_batch s preds batch =
     (if epoch s = 0 then Inl InvalidExplorationError
      else if length (scores s) \<ge> length (pool s)
        then Inr (s\<lparr>epoch := epoch s + 1\<rparr>, top_k_avg s)
      else
        (case update_model s of
           Inl e \<Rightarrow> Inl e
         | Inr s1 \<Rightarrow> score_round (update_predictions s1 preds) batch))"

text \<open>The rounds of \<open>run\<close> (lines 267-278). Each element of the list is what the
  collaborators answer in one round: the predictions of the model and the scores of
  the acquired batch. The list may end before the stopping condition holds; the
  result is then the state at that epoch boundary.\<close>

fun run_loop :: "explorer \<Rightarrow> (real list \<times> real option dict) list \<Rightarrow> error + explorer" where
  "run_loop s [] = Inr s"
| "run_loop s (r # rs) =
     (case completed s of
        Inl e \<Rightarrow> Inl e
      | Inr True \<Rightarrow> Inr s
      | Inr False \<Rightarrow>
          (case explore_batch s (fst r) (snd r) of
             Inl e \<Rightarrow> Inl e
           | Inr (s', a) \<Rightarrow> run_loop s' rs))"

fun run_rounds :: "explorer \<Rightarrow> (real list \<times> real option dict) list \<Rightarrow> error + explorer" where
  "run_rounds s [] = Inr s"
| "run_rounds s (r # rs) =
     (case (if epoch s = 0 then explore_initial s (snd r)
            else explore_batch s (fst r) (snd r)) of
        Inl e \<Rightarrow> Inl e
      | Inr (s', a) \<Rightarrow> run_loop s' rs)"

subsection \<open>Construction\<close>

text \<open>The arguments of \<open>__init__\<close> that this module itself interprets, with the pool,
  the sets \<open>acquirer.needs\<close> and \<open>model.provides\<close>, and the file system.\<close>

record config =
  c_pool :: "ident list"
  c_k :: pynum
  c_window_size :: nat
  c_delta :: real
  c_max_epochs :: int
  c_max_explore :: pynum
  c_write_intermediate :: bool
  c_retrain_from_scratch :: bool
  c_previous_scores :: "path option"
  c_scores_csvs :: "path list"
  c_needs :: "string set"
  c_provides :: "string set"
  c_files :: "path \<Rightarrow> csv_row list option"

text \<open>The stateful attributes as \<open>__init__\<close> sets them (lines 151-178), before the
  setters have checked \<open>k\<close> and \<open>max_explore\<close>.\<close>

definition blank :: "config \<Rightarrow> explorer" where
  "blank c =
     \<lparr>pool = c_pool c, k_cfg = c_k c, max_explore_cfg = c_max_explore c,
      delta = c_delta c, max_epochs = c_max_epochs c, window_size = c_window_size c,
      write_intermediate = c_write_intermediate c,
      retrain_from_scratch = c_retrain_from_scratch c,
      epoch = 0, scores = [], failures = [], new_scores = [],
      updated_model = None, recent_avgs = [], top_k_avg = None, y_preds = None,
      scores_csvs = c_scores_csvs c, files = c_files c\<rparr>"

text \<open>Truth value of a file path: the empty string is false.\<close>

fun path_truthy :: "path \<Rightarrow> bool" where
  "path_truthy (OtherFile name) = (name \<noteq> [])"
| "path_truthy p = True"

text \<open>\<open>__init__\<close> (lines 123-183), with \<open>_validate_acquirer\<close> (lines 679-686). The
  test \<^verbatim>\<open>if previous_scores:\<close> is false for \<open>None\<close> and for the empty path.\<close>

definition init :: "config \<Rightarrow> error + explorer" where
  "init c =
     (if c_provides c \<subset> c_needs c then Inl IncompatibilityError
      else
        (case set_k (blank c) (c_k c) of
           Inl e \<Rightarrow> Inl e
         | Inr s1 \<Rightarrow>
             (case set_max_explore s1 (c_max_explore c) of
                Inl e \<Rightarrow> Inl e
              | Inr s2 \<Rightarrow>
                  (case (case c_previous_scores c of
                           Some p \<Rightarrow> if path_truthy p then Some p else None
                         | None \<Rightarrow> None) of
                     Some p \<Rightarrow> load_scores s2 p
                   | None \<Rightarrow> if c_scores_csvs c \<noteq> [] then load s2 else Inr s2))))"

subsection \<open>Notions for the replay of a run\<close>

text \<open>The explorer that \<open>__init__\<close> hands to \<open>load\<close> when it is given the list
  \<open>ps\<close> of score files and the file system \<open>fs\<close>.\<close>

definition replay_start :: "config \<Rightarrow> (path \<Rightarrow> csv_row list option) \<Rightarrow> path list \<Rightarrow> explorer" where
  "replay_start c fs ps = blank (c\<lparr>c_scores_csvs := ps, c_files := fs\<rparr>)"

text \<open>What holds at every epoch boundary of a run of a new explorer with the
  configuration \<open>c\<close>: the configuration is kept, the maps are dicts, every written
  file carries an earlier epoch in its name, and as long as every round wrote its
  file, loading the files written so far gives the same maps and epoch, whatever
  the other files are.\<close>

definition run_inv :: "config \<Rightarrow> explorer \<Rightarrow> bool" where
  "run_inv c s =
     (pool s = c_pool c \<and> k_cfg s = c_k c
      \<and> distinct (dict_keys (scores s)) \<and> distinct (dict_keys (failures s))
      \<and> (\<forall>p \<in> set (scores_csvs s). \<exists>m e. p = TopExplored m e \<and> e < epoch s)
      \<and> int (length (scores_csvs s)) \<le> epoch s
      \<and> (epoch s = int (length (scores_csvs s)) \<longrightarrow>
           (\<forall>fs ps. (\<forall>p \<in> set (scores_csvs s). fs p = files s p) \<longrightarrow>
              (\<exists>t. load_files (replay_start c fs ps) (scores_csvs s) = Inr t
                   \<and> map_of (scores t) = map_of (scores s)
                   \<and> map_of (failures t) = map_of (failures s)
                   \<and> epoch t = epoch s))))"

text \<open>The later state \<open>s'\<close> still has every file that \<open>s\<close> wrote in an earlier
  epoch.\<close>

definition keeps_files :: "explorer \<Rightarrow> explorer \<Rightarrow> bool" where
  "keeps_files s s' =
     (epoch s \<le> epoch s'
      \<and> (\<forall>m e. e < epoch s \<longrightarrow> files s' (TopExplored m e) = files s (TopExplored m e)))"

subsection \<open>A concrete explorer\<close>

text \<open>A pool of five molecules, \<open>k = 2\<close>, a window of three averages, and every
  intermediate score file kept.\<close>

definition demo_config :: config where
  "demo_config =
     \<lparr>c_pool = [''A'', ''B'', ''C'', ''D'', ''E''], c_k = PyInt 2, c_window_size = 3,
      c_delta = 1 / 100, c_max_epochs = 50, c_max_explore = PyFloat 1,
      c_write_intermediate = True, c_retrain_from_scratch = False,
      c_previous_scores = None, c_scores_csvs = [], c_needs = {}, c_provides = {},
      c_files = (\<lambda>p. None)\<rparr>"

text \<open>The explorer after one round that scored the whole pool.\<close>

definition demo :: explorer where
  "demo = (blank demo_config)\<lparr>epoch := 1,
      scores := [(''A'', 5), (''B'', 3), (''C'', 9), (''D'', 1), (''E'', 7)]\<rparr>"


text \<open>The same configuration, seeded with a file of previous scores.\<close>

definition seeded_config :: config where
  "seeded_config =
     demo_config\<lparr>c_previous_scores := Some (OtherFile ''previous.csv''),
                  c_files := [OtherFile ''previous.csv'' \<mapsto> [(''A'', Some 5), (''B'', None)]]\<rparr>"

section \<open>Properties\<close>

lemmas demo_simps = demo_def blank_def demo_config_def seeded_config_def

lemmas round_simps = explore_initial_def explore_batch_def score_round_def write_scores_def
  update_model_def update_predictions_def explorer_len_def py_int_def deque_append_def
  List.map_filter_def Let_def

subsection \<open>Dictionaries\<close>

lemma dict_keys_simps [simp]:
  "dict_keys [] = []"
  "dict_keys (p # ps) = fst p # dict_keys ps"
  "dict_keys (xs @ ys) = dict_keys xs @ dict_keys ys"
  by (simp_all add: dict_keys_def)

lemma map_of_dict_set: "map_of (dict_set d x y) = (map_of d)(x \<mapsto> y)"
  by (induction d) auto

lemma keys_dict_set: "set (dict_keys (dict_set d x y)) = insert x (set (dict_keys d))"
  by (induction d) auto

lemma distinct_dict_set: "distinct (dict_keys d) \<Longrightarrow> distinct (dict_keys (dict_set d x y))"
  by (induction d) (auto simp: keys_dict_set)

lemma dict_set_same: "map_of d x = Some y \<Longrightarrow> dict_set d x y = d"
  by (induction d) (auto split: if_splits)

lemma dict_length_card: "distinct (dict_keys d) \<Longrightarrow> length d = card (set (dict_keys d))"
  unfolding dict_keys_def by (metis distinct_card length_map)


subsection \<open>The stopping condition\<close>

text \<open>
  C6. While the epoch has not passed \<open>max_epochs\<close>, fewer than \<open>max_explore\<close> inputs
  are scored and the window of recent averages holds fewer than \<open>window_size\<close>
  entries, \<open>completed\<close> is \<open>False\<close>, whatever the scores, the top-k average and
  \<open>delta\<close> are.
\<close>

theorem completed_false_before_window_full:
  assumes "epoch s \<le> max_epochs s"
    and "int (length (scores s)) < max_explore s"
    and "length (recent_avgs s) < window_size s"
  shows "completed s = Inr False"
  using assms by (simp add: completed_def)

theorem completed_false_before_window_full_witness:
  "epoch (demo\<lparr>max_explore_cfg := PyInt 10\<rparr>) \<le> max_epochs (demo\<lparr>max_explore_cfg := PyInt 10\<rparr>)
   \<and> int (length (scores (demo\<lparr>max_explore_cfg := PyInt 10\<rparr>)))
       < max_explore (demo\<lparr>max_explore_cfg := PyInt 10\<rparr>)
   \<and> length (recent_avgs (demo\<lparr>max_explore_cfg := PyInt 10\<rparr>))
       < window_size (demo\<lparr>max_explore_cfg := PyInt 10\<rparr>)
   \<and> completed (demo\<lparr>max_explore_cfg := PyInt 10\<rparr>) = Inr False"
proof -
  let ?s = "demo\<lparr>max_explore_cfg := PyInt 10\<rparr>"
  have h1: "epoch ?s \<le> max_epochs ?s"
    by (simp add: demo_simps)
  have h2: "int (length (scores ?s)) < max_explore ?s"
    by (simp add: demo_simps max_explore_def)
  have h3: "length (recent_avgs ?s) < window_size ?s"
    by (simp add: demo_simps)
  from completed_false_before_window_full [OF h1 h2 h3] h1 h2 h3
  show ?thesis by blast
qed

text \<open>
  C7. The setter accepts \<open>max_explore = 10\<close> for a pool of five molecules and the
  getter resolves it to 10: no clamp to the size of the pool is applied, for an
  integer as for a fraction above one.
\<close>

theorem max_explore_exceeds_pool:
  "set_max_explore demo (PyInt 10) = Inr (demo\<lparr>max_explore_cfg := PyInt 10\<rparr>)
   \<and> max_explore (demo\<lparr>max_explore_cfg := PyInt 10\<rparr>) = 10
   \<and> set_max_explore demo (PyFloat 2) = Inr (demo\<lparr>max_explore_cfg := PyFloat 2\<rparr>)
   \<and> max_explore (demo\<lparr>max_explore_cfg := PyFloat 2\<rparr>) = 10
   \<and> int (length (pool demo)) = 5"
  by (simp add: set_max_explore_def max_explore_def py_int_def demo_simps)

subsection \<open>Top-k selection\<close>

lemmas topk_simps = avg_def top_explored_def resolve_k_def self_k_def sorted_desc_def
  nlargest_def

text \<open>
  C1. With the whole pool of five scored and \<open>k = 5\<close>, \<open>top_explored\<close> returns the five
  pairs, whose mean is 5, but \<open>avg\<close> raises \<open>TypeError\<close>: the branch
  \<open>k == len(self.pool)\<close> sums the items of the dict instead of their scores. With
  \<open>k = 4\<close>, \<open>top_explored\<close> returns the same five pairs and \<open>avg\<close> divides their sum
  by 4.
\<close>

theorem avg_type_error_on_full_pool:
  "avg demo (Some (PyInt 5)) = Inl TypeError
   \<and> top_explored demo (Some (PyInt 5))
       = Inr [(''C'', 9), (''E'', 7), (''A'', 5), (''B'', 3), (''D'', 1)]
   \<and> avg demo (Some (PyInt 4)) = Inr (25 / 4)
   \<and> top_explored demo (Some (PyInt 4))
       = Inr [(''C'', 9), (''E'', 7), (''A'', 5), (''B'', 3), (''D'', 1)]"
  by (simp add: topk_simps demo_simps)

text \<open>
  C4. With five scores and \<open>k = 4\<close> the ratio \<open>k / len(self.scores)\<close> is not below
  0.8, so \<open>top_explored\<close> returns the full sorted list: five pairs instead of four.
\<close>

theorem top_explored_returns_all_for_four_of_five:
  "top_explored demo (Some (PyInt 4))
     = Inr [(''C'', 9), (''E'', 7), (''A'', 5), (''B'', 3), (''D'', 1)]
   \<and> min 4 (int (length (scores demo))) = 4"
  by (simp add: topk_simps demo_simps)









subsection \<open>Merging batches\<close>

lemma clean_scores_keys:
  "set (dict_keys (scores (clean_and_update_scores s b)))
     = set (dict_keys (scores s)) \<union> set (dict_keys (filter (\<lambda>(x, y). y \<noteq> None) b))"
  by (induction s b rule: clean_and_update_scores.induct)
     (auto simp: keys_dict_set split: option.splits)

lemma clean_failures_keys:
  "set (dict_keys (failures (clean_and_update_scores s b)))
     = set (dict_keys (failures s)) \<union> set (dict_keys (filter (\<lambda>(x, y). y = None) b))"
  by (induction s b rule: clean_and_update_scores.induct)
     (auto simp: keys_dict_set split: option.splits)

lemma clean_scores_distinct:
  "distinct (dict_keys (scores s)) \<Longrightarrow> distinct (dict_keys (scores (clean_and_update_scores s b)))"
  by (induction s b rule: clean_and_update_scores.induct)
     (auto simp: distinct_dict_set split: option.splits)

lemma clean_failures_distinct:
  "distinct (dict_keys (failures s)) \<Longrightarrow> distinct (dict_keys (failures (clean_and_update_scores s b)))"
  by (induction s b rule: clean_and_update_scores.induct)
     (auto simp: distinct_dict_set split: option.splits)

lemma merge_batches_scores_keys:
  "set (dict_keys (scores (merge_batches s bs))) = set (dict_keys (scores s)) \<union> succeeded_ids bs"
  unfolding merge_batches_def succeeded_ids_def
  by (induction bs arbitrary: s) (auto simp: clean_scores_keys)

lemma merge_batches_failures_keys:
  "set (dict_keys (failures (merge_batches s bs))) = set (dict_keys (failures s)) \<union> failed_ids bs"
  unfolding merge_batches_def failed_ids_def
  by (induction bs arbitrary: s) (auto simp: clean_failures_keys)

lemma merge_batches_distinct:
  "distinct (dict_keys (scores s)) \<Longrightarrow> distinct (dict_keys (failures s)) \<Longrightarrow>
   distinct (dict_keys (scores (merge_batches s bs))) \<and> distinct (dict_keys (failures (merge_batches s bs)))"
  unfolding merge_batches_def
  by (induction bs arbitrary: s) (auto simp: clean_scores_distinct clean_failures_distinct)

lemma evaluated_ids_split: "evaluated_ids bs = succeeded_ids bs \<union> failed_ids bs"
  unfolding evaluated_ids_def succeeded_ids_def failed_ids_def dict_keys_def by force

lemma clean_fixed:
  "(\<And>x v. (x, Some v) \<in> set b \<Longrightarrow> map_of (scores s) x = Some v \<and> map_of (new_scores s) x = Some v)
   \<Longrightarrow> (\<And>x. (x, None) \<in> set b \<Longrightarrow> map_of (failures s) x = Some ())
   \<Longrightarrow> clean_and_update_scores s b = s"
proof (induction s b rule: clean_and_update_scores.induct)
  case (1 s)
  then show ?case by simp
next
  case (2 s x y rest)
  have step: "(case y of None \<Rightarrow> s\<lparr>failures := dict_set (failures s) x ()\<rparr>
        | Some v \<Rightarrow> s\<lparr>scores := dict_set (scores s) x v, new_scores := dict_set (new_scores s) x v\<rparr>) = s"
    using "2.prems"(1) [of x] "2.prems"(2) [of x]
    by (cases y) (simp_all add: dict_set_same)
  show ?case
    using "2.IH" "2.prems" by (simp add: step)
qed

lemma clean_lookup_other:
  "x \<notin> set (dict_keys b) \<Longrightarrow>
     map_of (scores (clean_and_update_scores s b)) x = map_of (scores s) x
   \<and> map_of (new_scores (clean_and_update_scores s b)) x = map_of (new_scores s) x
   \<and> map_of (failures (clean_and_update_scores s b)) x = map_of (failures s) x"
  by (induction s b rule: clean_and_update_scores.induct)
     (auto simp: map_of_dict_set split: option.splits)

lemma clean_lookup_some:
  "distinct (dict_keys b) \<Longrightarrow> (x, Some v) \<in> set b \<Longrightarrow>
     map_of (scores (clean_and_update_scores s b)) x = Some v
     \<and> map_of (new_scores (clean_and_update_scores s b)) x = Some v"
proof (induction s b rule: clean_and_update_scores.induct)
  case (1 s)
  then show ?case by simp
next
  case (2 s x' y' rest)
  have notin: "x' \<notin> set (dict_keys rest)" and dist: "distinct (dict_keys rest)"
    using "2.prems"(1) by simp_all
  show ?case
  proof (cases "(x, Some v) = (x', y')")
    case True
    then have eq: "x' = x" "y' = Some v" by simp_all
    show ?thesis
      using notin unfolding eq by (simp add: clean_lookup_other map_of_dict_set)
  next
    case False
    then have "(x, Some v) \<in> set rest" using "2.prems"(2) by auto
    from "2.IH" [OF dist this] show ?thesis by simp
  qed
qed

lemma clean_lookup_none:
  "distinct (dict_keys b) \<Longrightarrow> (x, None) \<in> set b \<Longrightarrow>
     map_of (failures (clean_and_update_scores s b)) x = Some ()"
proof (induction s b rule: clean_and_update_scores.induct)
  case (1 s)
  then show ?case by simp
next
  case (2 s x' y' rest)
  have notin: "x' \<notin> set (dict_keys rest)" and dist: "distinct (dict_keys rest)"
    using "2.prems"(1) by simp_all
  show ?case
  proof (cases "(x, None) = (x', y')")
    case True
    then have eq: "x' = x" "y' = None" by simp_all
    show ?thesis
      using notin unfolding eq by (simp add: clean_lookup_other map_of_dict_set)
  next
    case False
    then have "(x, None) \<in> set rest" using "2.prems"(2) by auto
    from "2.IH" [OF dist this] show ?thesis by simp
  qed
qed

text \<open>
  C3. Starting from the empty maps of a new explorer, after any sequence of merged
  batches \<open>len(scores) + len(failures)\<close> is the number of identifiers that ever
  got a score plus the number of identifiers that ever failed. It is the number of
  distinct identifiers evaluated when no identifier did both; an identifier that
  failed and succeeded sits in both maps.
\<close>

theorem explorer_len_counts_both_maps:
  "explorer_len (merge_batches (blank c) bs)
     = int (card (succeeded_ids bs)) + int (card (failed_ids bs))
   \<and> (succeeded_ids bs \<inter> failed_ids bs = {} \<longrightarrow>
        explorer_len (merge_batches (blank c) bs) = int (card (evaluated_ids bs)))"
proof -
  let ?s = "merge_batches (blank c) bs"
  have d: "distinct (dict_keys (scores ?s))" "distinct (dict_keys (failures ?s))"
    using merge_batches_distinct [of "blank c" bs] by (simp_all add: blank_def)
  have ks: "set (dict_keys (scores ?s)) = succeeded_ids bs"
    by (simp add: merge_batches_scores_keys) (simp add: blank_def)
  have kf: "set (dict_keys (failures ?s)) = failed_ids bs"
    by (simp add: merge_batches_failures_keys) (simp add: blank_def)
  have len: "explorer_len ?s = int (card (succeeded_ids bs)) + int (card (failed_ids bs))"
    using d ks kf by (simp add: explorer_len_def dict_length_card)
  have fin: "finite (succeeded_ids bs)" "finite (failed_ids bs)"
    by (simp_all add: succeeded_ids_def failed_ids_def)
  show ?thesis
    using len fin by (auto simp: evaluated_ids_split card_Un_disjoint)
qed


theorem explorer_len_counts_both_maps_witness:
  "succeeded_ids [[(''A'', Some (21 / 5)), (''B'', None)]]
     \<inter> failed_ids [[(''A'', Some (21 / 5)), (''B'', None)]] = {}
   \<and> explorer_len (merge_batches (blank demo_config) [[(''A'', Some (21 / 5)), (''B'', None)]])
       = int (card (evaluated_ids [[(''A'', Some (21 / 5)), (''B'', None)]]))"
proof -
  let ?bs = "[[(''A'', Some (21 / 5 :: real)), (''B'', None)]]"
  have disj: "succeeded_ids ?bs \<inter> failed_ids ?bs = {}"
    by (simp add: succeeded_ids_def failed_ids_def)
  from explorer_len_counts_both_maps [of demo_config ?bs] disj
  show ?thesis by blast
qed

text \<open>The identifier \<open>A\<close> fails in a first batch and gets a score in a second one:
  one identifier was evaluated, and the length of the explorer is two.\<close>

theorem explorer_len_counts_refailed_twice:
  "explorer_len (merge_batches (blank demo_config) [[(''A'', None)], [(''A'', Some 1)]]) = 2
   \<and> card (evaluated_ids [[(''A'', None)], [(''A'', Some 1)]]) = 1"
  by (simp add: merge_batches_def explorer_len_def evaluated_ids_def blank_def dict_keys_def)


text \<open>
  C5. Merging a batch (a dict, so its keys are distinct) a second time changes
  nothing: the whole explorer, and so its score map, failure map and new-scores map,
  is as after the first merge.
\<close>

theorem clean_and_update_scores_idempotent:
  assumes "distinct (dict_keys batch)"
  shows "clean_and_update_scores (clean_and_update_scores s batch) batch
           = clean_and_update_scores s batch"
proof (rule clean_fixed)
  fix x v assume "(x, Some v) \<in> set batch"
  from clean_lookup_some [OF assms this]
  show "map_of (scores (clean_and_update_scores s batch)) x = Some v \<and>
        map_of (new_scores (clean_and_update_scores s batch)) x = Some v" .
next
  fix x assume "(x, None) \<in> set batch"
  from clean_lookup_none [OF assms this]
  show "map_of (failures (clean_and_update_scores s batch)) x = Some ()" .
qed


theorem clean_and_update_scores_idempotent_witness:
  "distinct (dict_keys [(''A'', Some (21 / 5 :: real)), (''B'', None)])
   \<and> clean_and_update_scores
         (clean_and_update_scores demo [(''A'', Some (21 / 5)), (''B'', None)])
         [(''A'', Some (21 / 5)), (''B'', None)]
       = clean_and_update_scores demo [(''A'', Some (21 / 5)), (''B'', None)]"
proof -
  have d: "distinct (dict_keys [(''A'', Some (21 / 5 :: real)), (''B'', None)])"
    by simp
  from clean_and_update_scores_idempotent [OF d, of demo] d
  show ?thesis by blast
qed

subsection \<open>The average over an empty score map\<close>

text \<open>
  C8. On an empty score map \<open>avg\<close> always ends in the division by zero, for every
  count: nothing guards the divisions by \<open>k\<close> and by \<open>len(self.scores)\<close>.
\<close>

theorem avg_empty_scores_zero_division:
  assumes "scores s = []"
  shows "avg s karg = Inl ZeroDivisionError"
  using assms by (simp add: avg_def top_explored_def Let_def)

theorem avg_empty_scores_zero_division_witness:
  "scores (blank demo_config) = []
   \<and> avg (blank demo_config) (Some (PyFloat (1 / 2))) = Inl ZeroDivisionError"
proof -
  have e: "scores (blank demo_config) = []"
    by (simp add: blank_def)
  from avg_empty_scores_zero_division [OF e] e
  show ?thesis by blast
qed

text \<open>A new explorer, count 0: the error raised is \<open>ZeroDivisionError\<close>.\<close>

theorem avg_unguarded_on_new_explorer:
  "avg (blank demo_config) (Some (PyInt 0)) = Inl ZeroDivisionError"
  by (simp add: avg_def top_explored_def Let_def blank_def)

subsection \<open>The order of the rounds\<close>

lemma top_explored_error: "top_explored s karg = Inl e \<Longrightarrow> e = ZeroDivisionError"
  by (auto simp: top_explored_def Let_def split: if_splits)

lemma avg_error: "avg s karg = Inl e \<Longrightarrow> e = ZeroDivisionError \<or> e = TypeError"
  by (auto simp: avg_def Let_def split: if_splits sum.splits dest: top_explored_error)

lemma write_scores_error:
  "write_scores s m final inc = Inl e \<Longrightarrow> e = ZeroDivisionError"
  by (auto simp: write_scores_def Let_def split: sum.splits dest: top_explored_error)

lemma update_model_error: "update_model s = Inl e \<Longrightarrow> e = ValueError"
  by (auto simp: update_model_def split: if_splits)

lemma score_round_error:
  "score_round s batch = Inl e \<Longrightarrow> e = ZeroDivisionError \<or> e = TypeError"
  unfolding score_round_def Let_def
  by (auto split: sum.splits if_splits dest: avg_error write_scores_error)

lemma write_scores_epoch: "write_scores s m final inc = Inr s' \<Longrightarrow> epoch s' = epoch s"
  by (auto simp: write_scores_def Let_def split: sum.splits)

lemma clean_epoch: "epoch (clean_and_update_scores s batch) = epoch s"
  by (induction s batch rule: clean_and_update_scores.induct) (auto split: option.splits)

lemma score_round_epoch: "score_round s batch = Inr (s', a) \<Longrightarrow> epoch s' = epoch s + 1"
  unfolding score_round_def Let_def
  by (auto simp: clean_epoch dest!: write_scores_epoch split: sum.splits if_splits)

lemma load_scores_epoch: "load_scores s p = Inr s' \<Longrightarrow> epoch s' \<noteq> 0"
  by (auto simp: load_scores_def Let_def split: sum.splits if_splits)

lemma explore_batch_invalid:
  "(explore_batch s preds batch = Inl InvalidExplorationError) = (epoch s = 0)"
  unfolding explore_batch_def
  by (auto split: sum.splits dest: update_model_error score_round_error)

text \<open>
  C9. \<open>explore_batch\<close> raises \<open>InvalidExplorationError\<close> exactly when the epoch is
  still 0. After \<open>explore_initial\<close> (on an explorer whose epoch is not negative) and
  after \<open>load_scores\<close> the epoch is not 0, so the error is not raised.
\<close>

theorem explore_batch_invalid_iff_epoch_zero:
  "(explore_batch s preds batch = Inl InvalidExplorationError \<longleftrightarrow> epoch s = 0)
   \<and> (0 \<le> epoch s0 \<and> explore_initial s0 b0 = Inr (s, a)
        \<longrightarrow> explore_batch s preds batch \<noteq> Inl InvalidExplorationError)
   \<and> (load_scores s0 p = Inr s
        \<longrightarrow> explore_batch s preds batch \<noteq> Inl InvalidExplorationError)"
proof (intro conjI impI)
  show "explore_batch s preds batch = Inl InvalidExplorationError \<longleftrightarrow> epoch s = 0"
    by (rule explore_batch_invalid)
next
  assume "0 \<le> epoch s0 \<and> explore_initial s0 b0 = Inr (s, a)"
  then have nonneg: "0 \<le> epoch s0" and round: "score_round s0 b0 = Inr (s, a)"
    by (simp_all add: explore_initial_def)
  from score_round_epoch [OF round] nonneg have "epoch s \<noteq> 0" by simp
  then show "explore_batch s preds batch \<noteq> Inl InvalidExplorationError"
    by (simp add: explore_batch_invalid)
next
  assume "load_scores s0 p = Inr s"
  then have "epoch s \<noteq> 0" by (rule load_scores_epoch)
  then show "explore_batch s preds batch \<noteq> Inl InvalidExplorationError"
    by (simp add: explore_batch_invalid)
qed

lemma demo_initial_round:
  "\<exists>s a. explore_initial (blank demo_config) [(''C'', Some 9), (''E'', Some 7)] = Inr (s, a)"
  by (simp add: round_simps topk_simps demo_simps)

lemma seeded_load_scores:
  "\<exists>s. load_scores (blank seeded_config) (OtherFile ''previous.csv'') = Inr s"
  by (simp add: load_scores_def read_scores_def read_row_def dict_update_def demo_simps)

theorem explore_batch_invalid_iff_epoch_zero_witness:
  "explore_batch (blank demo_config) [] [] = Inl InvalidExplorationError
   \<and> epoch (blank demo_config) = 0
   \<and> (case explore_initial (blank demo_config) [(''C'', Some 9), (''E'', Some 7)] of
         Inl e \<Rightarrow> False
       | Inr (s, a) \<Rightarrow> explore_batch s [] [] \<noteq> Inl InvalidExplorationError)
   \<and> (case load_scores (blank seeded_config) (OtherFile ''previous.csv'') of
         Inl e \<Rightarrow> False
       | Inr s \<Rightarrow> explore_batch s [] [] \<noteq> Inl InvalidExplorationError)"
proof -
  let ?s0 = "blank demo_config"
  let ?b0 = "[(''C'', Some (9 :: real)), (''E'', Some 7)]"
  have e0: "epoch ?s0 = 0" by (simp add: blank_def)
  obtain s a where r: "explore_initial ?s0 ?b0 = Inr (s, a)"
    using demo_initial_round by blast
  obtain s' where l: "load_scores (blank seeded_config) (OtherFile ''previous.csv'') = Inr s'"
    using seeded_load_scores by blast
  have pre: "0 \<le> epoch ?s0 \<and> explore_initial ?s0 ?b0 = Inr (s, a)"
    using e0 r by simp
  from explore_batch_invalid_iff_epoch_zero [where s = ?s0 and preds = "[]" and batch = "[]"]
  have a1: "explore_batch ?s0 [] [] = Inl InvalidExplorationError"
    using e0 by simp
  from explore_batch_invalid_iff_epoch_zero
         [where s = s and preds = "[]" and batch = "[]" and ?s0.0 = ?s0 and ?b0.0 = ?b0 and a = a] pre
  have a2: "explore_batch s [] [] \<noteq> Inl InvalidExplorationError"
    by blast
  from explore_batch_invalid_iff_epoch_zero
         [where s = s' and preds = "[]" and batch = "[]" and ?s0.0 = "blank seeded_config"
            and p = "OtherFile ''previous.csv''"] l
  have a3: "explore_batch s' [] [] \<noteq> Inl InvalidExplorationError"
    by blast
  show ?thesis
    using a1 a2 a3 e0 r l by simp
qed

section \<open>Replaying the intermediate score files\<close>

subsection \<open>Sorting keeps the dict\<close>

lemma set_sorted_desc: "set (sorted_desc xs) = set xs"
  by (simp add: sorted_desc_def)

lemma length_sorted_desc: "length (sorted_desc xs) = length xs"
  by (simp add: sorted_desc_def)

lemma keys_insort_key:
  "distinct (dict_keys (insort_key f p ps)) = (fst p \<notin> set (dict_keys ps) \<and> distinct (dict_keys ps))"
  by (induction ps) (auto simp: dict_keys_def set_insort_key)

lemma set_keys_sort_key: "set (dict_keys (sort_key f xs)) = set (dict_keys xs)"
  by (simp add: dict_keys_def)

lemma distinct_keys_sort_key: "distinct (dict_keys (sort_key f xs)) = distinct (dict_keys xs)"
  by (induction xs) (simp_all add: keys_insort_key set_keys_sort_key)

lemma distinct_keys_sorted_desc: "distinct (dict_keys (sorted_desc xs)) = distinct (dict_keys xs)"
  by (simp add: sorted_desc_def distinct_keys_sort_key)

lemma map_of_sorted_desc:
  assumes "distinct (dict_keys xs)"
  shows "map_of (sorted_desc xs) = map_of xs"
proof -
  have "distinct (map fst (sorted_desc xs))" "distinct (map fst xs)"
    using assms distinct_keys_sorted_desc [of xs] by (simp_all add: dict_keys_def)
  then show ?thesis
    by (simp add: map_of_inject_set set_sorted_desc)
qed

subsection \<open>Reading back what was written\<close>

lemma dict_set_new: "x \<notin> set (dict_keys d) \<Longrightarrow> dict_set d x y = d @ [(x, y)]"
  by (induction d) auto

lemma fold_dict_set_distinct:
  "distinct (dict_keys (acc @ xs)) \<Longrightarrow> fold (\<lambda>(x, y) d. dict_set d x y) xs acc = acc @ xs"
proof (induction xs arbitrary: acc)
  case Nil
  then show ?case by simp
next
  case (Cons p ps)
  obtain x y where p: "p = (x, y)" by (cases p)
  have new: "x \<notin> set (dict_keys acc)" using Cons.prems p by auto
  have "distinct (dict_keys ((acc @ [(x, y)]) @ ps))" using Cons.prems p by simp
  from Cons.IH [OF this] show ?case
    using p new by (simp add: dict_set_new)
qed

lemma fold_read_scores_rows:
  "fold read_row (map (\<lambda>(x, y). (x, Some y)) xs) (sc, fl)
     = (fold (\<lambda>(x, y) d. dict_set d x y) xs sc, fl)"
  by (induction xs arbitrary: sc) (auto simp: read_row_def)

lemma fold_read_failure_rows:
  "fold read_row (map (\<lambda>(x, u). (x, None)) xs) (sc, fl)
     = (sc, fold (\<lambda>(x, y) d. dict_set d x y) xs fl)"
  by (induction xs arbitrary: fl) (auto simp: read_row_def)

lemma read_back:
  assumes "distinct (dict_keys sc)" and "distinct (dict_keys fl)"
    and "fs p = Some (map (\<lambda>(x, y). (x, Some y)) sc @ map (\<lambda>(x, u). (x, None)) fl)"
  shows "read_scores fs p = Inr (sc, fl)"
proof -
  have "read_scores fs p
          = Inr (fold read_row (map (\<lambda>(x, y). (x, Some y)) sc @ map (\<lambda>(x, u). (x, None)) fl) ([], []))"
    using assms(3) by (simp add: read_scores_def)
  also have "\<dots> = Inr (fold (\<lambda>(x, y) d. dict_set d x y) sc [],
                         fold (\<lambda>(x, y) d. dict_set d x y) fl [])"
    by (simp add: fold_read_scores_rows fold_read_failure_rows)
  also have "\<dots> = Inr (sc, fl)"
    using fold_dict_set_distinct [of "[]" sc] fold_dict_set_distinct [of "[]" fl] assms(1,2)
    by simp
  finally show ?thesis .
qed

subsection \<open>write_scores\<close>

lemma top_explored_all:
  assumes "scores s \<noteq> []" and "int (length (scores s)) \<le> m"
  shows "top_explored s (Some (PyInt m)) = Inr (sorted_desc (scores s))"
proof -
  have pos: "0 < length (scores s)" using assms(1) by simp
  then have "m \<noteq> 0" using assms(2) by linarith
  then have k: "resolve_k s (Some (PyInt m)) = int (length (scores s))"
    using assms(2) by (simp add: resolve_k_def)
  have "real_of_int (int (length (scores s))) / real (length (scores s)) = 1"
    using pos by simp
  then show ?thesis
    using assms(1) unfolding top_explored_def k Let_def by simp
qed

lemma write_scores_intermediate:
  assumes "scores s \<noteq> []"
  shows "write_scores s (PyFloat 1) False True
           = Inr (s\<lparr>scores_csvs := scores_csvs s @ [TopExplored (explorer_len s) (epoch s)],
                    files := (files s)(TopExplored (explorer_len s) (epoch s) \<mapsto>
                       map (\<lambda>(x, y). (x, Some y)) (sorted_desc (scores s))
                       @ map (\<lambda>(x, u). (x, None)) (failures s))\<rparr>)"
proof -
  let ?s1 = "s\<lparr>scores_csvs := scores_csvs s @ [TopExplored (explorer_len s) (epoch s)]\<rparr>"
  have len: "py_int (1 * real_of_int (explorer_len s)) = explorer_len s"
    by (simp add: py_int_def explorer_len_def)
  have "int (length (scores ?s1)) \<le> explorer_len s"
    by (simp add: explorer_len_def)
  from top_explored_all [OF _ this] assms
  have top: "top_explored ?s1 (Some (PyInt (explorer_len s))) = Inr (sorted_desc (scores s))"
    by simp
  show ?thesis
    unfolding write_scores_def Let_def using len top by simp
qed

subsection \<open>What avg reads\<close>

lemma self_k_cong:
  assumes "pool s = pool t" "k_cfg s = k_cfg t"
  shows "self_k s = self_k t"
  unfolding self_k_def by (simp only: assms)

lemma resolve_k_cong:
  assumes "pool s = pool t" "k_cfg s = k_cfg t" "length (scores s) = length (scores t)"
  shows "resolve_k s karg = resolve_k t karg"
  unfolding resolve_k_def self_k_def by (simp only: assms)

lemma top_explored_cong:
  assumes "pool s = pool t" "k_cfg s = k_cfg t" "scores s = scores t"
  shows "top_explored s karg = top_explored t karg"
  unfolding top_explored_def resolve_k_def self_k_def by (simp only: assms)

lemma avg_cong:
  assumes "pool s = pool t" "k_cfg s = k_cfg t" "scores s = scores t"
  shows "avg s karg = avg t karg"
  unfolding avg_def top_explored_def resolve_k_def self_k_def by (simp only: assms)

lemma avg_ok_iff:
  "(\<exists>a. avg s None = Inr a)
     = (scores s \<noteq> [] \<and> min (self_k s) (int (length (scores s))) \<noteq> int (length (pool s))
        \<and> min (self_k s) (int (length (scores s))) \<noteq> 0)"
  by (auto simp: avg_def top_explored_def resolve_k_def Let_def)

lemma avg_ok_length:
  assumes "\<exists>a. avg s None = Inr a"
    and "pool t = pool s" "k_cfg t = k_cfg s" "length (scores t) = length (scores s)"
  shows "\<exists>a. avg t None = Inr a"
proof -
  have "self_k t = self_k s" using assms(2,3) by (rule self_k_cong)
  moreover have "(scores t = []) = (scores s = [])" using assms(4) by (metis length_0_conv)
  ultimately show ?thesis
    using assms unfolding avg_ok_iff by simp
qed

subsection \<open>Fields that a merge leaves alone\<close>

lemma clean_fields:
  "pool (clean_and_update_scores s b) = pool s
   \<and> k_cfg (clean_and_update_scores s b) = k_cfg s
   \<and> max_explore_cfg (clean_and_update_scores s b) = max_explore_cfg s
   \<and> delta (clean_and_update_scores s b) = delta s
   \<and> max_epochs (clean_and_update_scores s b) = max_epochs s
   \<and> window_size (clean_and_update_scores s b) = window_size s
   \<and> write_intermediate (clean_and_update_scores s b) = write_intermediate s
   \<and> retrain_from_scratch (clean_and_update_scores s b) = retrain_from_scratch s
   \<and> epoch (clean_and_update_scores s b) = epoch s
   \<and> scores_csvs (clean_and_update_scores s b) = scores_csvs s
   \<and> files (clean_and_update_scores s b) = files s"
  by (induction s b rule: clean_and_update_scores.induct) (auto split: option.splits)

subsection \<open>One scoring round\<close>

lemma score_round_result:
  assumes "score_round s b = Inr (s', a)"
  defines "s1 \<equiv> clean_and_update_scores s b"
  shows "(\<exists>av. avg s1 None = Inr av)
    \<and> scores s' = scores s1 \<and> failures s' = failures s1 \<and> epoch s' = epoch s + 1
    \<and> pool s' = pool s \<and> k_cfg s' = k_cfg s
    \<and> (if write_intermediate s
        then scores_csvs s' = scores_csvs s @ [TopExplored (explorer_len s1) (epoch s)]
           \<and> files s' = (files s)(TopExplored (explorer_len s1) (epoch s) \<mapsto>
                 map (\<lambda>(x, y). (x, Some y)) (sorted_desc (scores s1))
                 @ map (\<lambda>(x, u). (x, None)) (failures s1))
        else scores_csvs s' = scores_csvs s \<and> files s' = files s)"
proof -
  from assms(1) obtain av where av: "avg s1 None = Inr av"
    unfolding score_round_def Let_def s1_def by (auto split: sum.splits)
  then have ne: "scores s1 \<noteq> []"
    using avg_ok_iff [of s1] by blast
  let ?s2 = "s1\<lparr>top_k_avg := Some av\<rparr>"
  let ?s3 = "if int (length (scores ?s2)) \<ge> self_k ?s2
             then ?s2\<lparr>recent_avgs := deque_append (window_size ?s2) (recent_avgs ?s2) av\<rparr>
             else ?s2"
  have s3: "scores ?s3 = scores s1" "failures ?s3 = failures s1" "epoch ?s3 = epoch s"
    "scores_csvs ?s3 = scores_csvs s" "files ?s3 = files s"
    "write_intermediate ?s3 = write_intermediate s" "pool ?s3 = pool s" "k_cfg ?s3 = k_cfg s"
    "explorer_len ?s3 = explorer_len s1"
    by (simp_all add: s1_def clean_fields explorer_len_def)
  have ne3: "scores ?s3 \<noteq> []" using ne s3(1) by simp
  from assms(1) av have
    "(case (if write_intermediate ?s3 then write_scores ?s3 (PyFloat 1) False True else Inr ?s3) of
        Inl e \<Rightarrow> Inl e
      | Inr s4 \<Rightarrow>
          (if List.map_filter snd b = [] then Inl ZeroDivisionError
           else Inr (s4\<lparr>epoch := epoch s4 + 1\<rparr>,
                     Some (sum_list (List.map_filter snd b) / real (length (List.map_filter snd b))))))
     = Inr (s', a)"
    unfolding score_round_def Let_def s1_def by simp
  then obtain s4 where
    s4: "(if write_intermediate ?s3 then write_scores ?s3 (PyFloat 1) False True else Inr ?s3) = Inr s4"
    and s': "s' = s4\<lparr>epoch := epoch s4 + 1\<rparr>"
    by (auto split: sum.splits if_splits)
  show ?thesis
  proof (cases "write_intermediate s")
    case True
    then have "write_scores ?s3 (PyFloat 1) False True = Inr s4"
      using s4 s3(6) by simp
    then have "s4 = ?s3\<lparr>scores_csvs := scores_csvs ?s3 @ [TopExplored (explorer_len ?s3) (epoch ?s3)],
                    files := (files ?s3)(TopExplored (explorer_len ?s3) (epoch ?s3) \<mapsto>
                       map (\<lambda>(x, y). (x, Some y)) (sorted_desc (scores ?s3))
                       @ map (\<lambda>(x, u). (x, None)) (failures ?s3))\<rparr>"
      using write_scores_intermediate [OF ne3] by simp
    then show ?thesis
      using True av s' s3 by simp
  next
    case False
    then have "s4 = ?s3" using s4 s3(6) by simp
    then show ?thesis
      using False av s' s3 by simp
  qed
qed

subsection \<open>One step of load\<close>

lemma update_model_fields:
  assumes "update_model s = Inr s'"
  shows "pool s' = pool s \<and> k_cfg s' = k_cfg s
     \<and> scores s' = scores s \<and> failures s' = failures s \<and> epoch s' = epoch s
     \<and> scores_csvs s' = scores_csvs s \<and> files s' = files s
     \<and> write_intermediate s' = write_intermediate s"
  using assms by (auto simp: update_model_def split: if_splits)

lemma update_predictions_fields:
  "pool (update_predictions s preds) = pool s \<and> k_cfg (update_predictions s preds) = k_cfg s
     \<and> scores (update_predictions s preds) = scores s
     \<and> failures (update_predictions s preds) = failures s
     \<and> epoch (update_predictions s preds) = epoch s
     \<and> scores_csvs (update_predictions s preds) = scores_csvs s
     \<and> files (update_predictions s preds) = files s
     \<and> write_intermediate (update_predictions s preds) = write_intermediate s"
  by (simp add: update_predictions_def)

lemma load_step_unfold:
  assumes rd: "read_scores (files t) p = Inr (sc, fl)"
  shows "\<exists>s3. pool s3 = pool t \<and> k_cfg s3 = k_cfg t \<and> failures s3 = fl
           \<and> epoch s3 = epoch t \<and> scores_csvs s3 = scores_csvs t \<and> files s3 = files t
           \<and> load_step t p =
               (case avg (s3\<lparr>scores := sc, epoch := epoch s3 + 1\<rparr>) None of
                  Inl e \<Rightarrow> Inl e
                | Inr a \<Rightarrow>
                    (let s5 = s3\<lparr>scores := sc, epoch := epoch s3 + 1, top_k_avg := Some a\<rparr>
                     in Inr (if int (length (scores s5)) \<ge> self_k s5
                             then s5\<lparr>recent_avgs :=
                                    deque_append (window_size s5) (recent_avgs s5) a\<rparr>
                             else s5)))"
proof -
  let ?s1 = "t\<lparr>failures := fl\<rparr>"
  let ?s2 = "?s1\<lparr>new_scores := filter (\<lambda>(smi, score). \<not> dict_mem smi (scores ?s1)) sc\<rparr>"
  have "\<exists>s3. (if \<not> retrain_from_scratch ?s2 then update_model ?s2 else Inr ?s2) = Inr s3"
    by (simp add: update_model_def)
  then obtain s3 where
    s3: "(if \<not> retrain_from_scratch ?s2 then update_model ?s2 else Inr ?s2) = Inr s3"
    by blast
  have f3: "pool s3 = pool t \<and> k_cfg s3 = k_cfg t \<and> failures s3 = fl
     \<and> epoch s3 = epoch t \<and> scores_csvs s3 = scores_csvs t \<and> files s3 = files t"
  proof (cases "retrain_from_scratch ?s2")
    case True
    then have "s3 = ?s2" using s3 by simp
    then show ?thesis by simp
  next
    case False
    then have "update_model ?s2 = Inr s3" using s3 by simp
    from update_model_fields [OF this] show ?thesis by simp
  qed
  have "load_step t p =
               (case avg (s3\<lparr>scores := sc, epoch := epoch s3 + 1\<rparr>) None of
                  Inl e \<Rightarrow> Inl e
                | Inr a \<Rightarrow>
                    (let s5 = s3\<lparr>scores := sc, epoch := epoch s3 + 1, top_k_avg := Some a\<rparr>
                     in Inr (if int (length (scores s5)) \<ge> self_k s5
                             then s5\<lparr>recent_avgs :=
                                    deque_append (window_size s5) (recent_avgs s5) a\<rparr>
                             else s5)))"
    unfolding load_step_def using rd s3 by (simp add: Let_def)
  with f3 show ?thesis by blast
qed

lemma load_step_ok:
  assumes rd: "read_scores (files t) p = Inr (sc, fl)"
    and ok: "\<exists>a. avg (t\<lparr>scores := sc\<rparr>) None = Inr a"
  shows "\<exists>t'. load_step t p = Inr t' \<and> scores t' = sc \<and> failures t' = fl
     \<and> epoch t' = epoch t + 1 \<and> pool t' = pool t \<and> k_cfg t' = k_cfg t
     \<and> files t' = files t \<and> scores_csvs t' = scores_csvs t"
proof -
  from load_step_unfold [OF rd] obtain s3 where
    f3: "pool s3 = pool t" "k_cfg s3 = k_cfg t" "failures s3 = fl" "epoch s3 = epoch t"
        "scores_csvs s3 = scores_csvs t" "files s3 = files t"
    and ls: "load_step t p =
               (case avg (s3\<lparr>scores := sc, epoch := epoch s3 + 1\<rparr>) None of
                  Inl e \<Rightarrow> Inl e
                | Inr a \<Rightarrow>
                    (let s5 = s3\<lparr>scores := sc, epoch := epoch s3 + 1, top_k_avg := Some a\<rparr>
                     in Inr (if int (length (scores s5)) \<ge> self_k s5
                             then s5\<lparr>recent_avgs :=
                                    deque_append (window_size s5) (recent_avgs s5) a\<rparr>
                             else s5)))"
    by blast
  have "avg (s3\<lparr>scores := sc, epoch := epoch s3 + 1\<rparr>) None = avg (t\<lparr>scores := sc\<rparr>) None"
    by (rule avg_cong) (simp_all add: f3)
  then obtain a where a: "avg (s3\<lparr>scores := sc, epoch := epoch s3 + 1\<rparr>) None = Inr a"
    using ok by auto
  show ?thesis
    unfolding ls a using f3 by (simp add: Let_def)
qed

lemma load_step_fields:
  assumes "load_step t p = Inr t'"
  shows "pool t' = pool t \<and> k_cfg t' = k_cfg t \<and> files t' = files t"
proof -
  from assms obtain sc fl where rd: "read_scores (files t) p = Inr (sc, fl)"
    unfolding load_step_def by (auto split: sum.splits)
  from load_step_unfold [OF rd] obtain s3 where
    f3: "pool s3 = pool t" "k_cfg s3 = k_cfg t" "files s3 = files t"
    and ls: "load_step t p =
               (case avg (s3\<lparr>scores := sc, epoch := epoch s3 + 1\<rparr>) None of
                  Inl e \<Rightarrow> Inl e
                | Inr a \<Rightarrow>
                    (let s5 = s3\<lparr>scores := sc, epoch := epoch s3 + 1, top_k_avg := Some a\<rparr>
                     in Inr (if int (length (scores s5)) \<ge> self_k s5
                             then s5\<lparr>recent_avgs :=
                                    deque_append (window_size s5) (recent_avgs s5) a\<rparr>
                             else s5)))"
    by blast
  from assms ls f3 show ?thesis
    by (auto simp: Let_def split: sum.splits if_splits)
qed

lemma load_files_fields:
  "load_files u ps = Inr t \<Longrightarrow> pool t = pool u \<and> k_cfg t = k_cfg u \<and> files t = files u"
proof (induction ps arbitrary: u)
  case Nil
  then show ?case by simp
next
  case (Cons p ps)
  from Cons.prems obtain u' where st: "load_step u p = Inr u'" and rest: "load_files u' ps = Inr t"
    by (auto split: sum.splits)
  from Cons.IH [OF rest] load_step_fields [OF st] show ?case by simp
qed

lemma load_files_append:
  "load_files u (ps @ [p])
     = (case load_files u ps of Inl e \<Rightarrow> Inl e | Inr t \<Rightarrow> load_step t p)"
  by (induction ps arbitrary: u) (auto split: sum.splits)

subsection \<open>The invariant of a run\<close>

lemma run_inv_score_round:
  assumes inv: "run_inv c s" and r: "score_round s b = Inr (s', a)"
  shows "run_inv c s'"
proof -
  let ?s1 = "clean_and_update_scores s b"
  let ?p = "TopExplored (explorer_len ?s1) (epoch s)"
  let ?rows = "map (\<lambda>(x, y). (x, Some y)) (sorted_desc (scores ?s1))
               @ map (\<lambda>(x, u). (x, None)) (failures ?s1)"
  note res = score_round_result [OF r]
  have avg1: "\<exists>av. avg ?s1 None = Inr av"
    and sc: "scores s' = scores ?s1" and fl: "failures s' = failures ?s1"
    and ep: "epoch s' = epoch s + 1" and pl: "pool s' = pool s" and kc: "k_cfg s' = k_cfg s"
    using res by simp_all
  have wr: "scores_csvs s' = scores_csvs s @ [?p] \<and> files s' = (files s)(?p \<mapsto> ?rows)"
    if "write_intermediate s"
    using res that by simp
  have nwr: "scores_csvs s' = scores_csvs s \<and> files s' = files s"
    if "\<not> write_intermediate s"
    using res that by simp
  from inv have cfg: "pool s = c_pool c" "k_cfg s = c_k c"
    and d: "distinct (dict_keys (scores s))" "distinct (dict_keys (failures s))"
    and paths: "\<forall>p \<in> set (scores_csvs s). \<exists>m e. p = TopExplored m e \<and> e < epoch s"
    and len: "int (length (scores_csvs s)) \<le> epoch s"
    and rep: "epoch s = int (length (scores_csvs s)) \<longrightarrow>
           (\<forall>fs ps. (\<forall>p \<in> set (scores_csvs s). fs p = files s p) \<longrightarrow>
              (\<exists>t. load_files (replay_start c fs ps) (scores_csvs s) = Inr t
                   \<and> map_of (scores t) = map_of (scores s)
                   \<and> map_of (failures t) = map_of (failures s)
                   \<and> epoch t = epoch s))"
    unfolding run_inv_def by blast+
  have d1: "distinct (dict_keys (scores ?s1))" "distinct (dict_keys (failures ?s1))"
    using d by (simp_all add: clean_scores_distinct clean_failures_distinct)
  have paths': "\<forall>p \<in> set (scores_csvs s'). \<exists>m e. p = TopExplored m e \<and> e < epoch s'"
  proof (cases "write_intermediate s")
    case True
    then show ?thesis using wr paths ep by fastforce
  next
    case False
    then show ?thesis using nwr paths ep by fastforce
  qed
  have len': "int (length (scores_csvs s')) \<le> epoch s'"
    using wr nwr len ep by (cases "write_intermediate s") simp_all
  have rep': "\<exists>t. load_files (replay_start c fs ps) (scores_csvs s') = Inr t
                   \<and> map_of (scores t) = map_of (scores s')
                   \<and> map_of (failures t) = map_of (failures s')
                   \<and> epoch t = epoch s'"
    if eq: "epoch s' = int (length (scores_csvs s'))"
      and agree: "\<forall>p \<in> set (scores_csvs s'). fs p = files s' p"
    for fs ps
  proof -
    have w: "write_intermediate s"
    proof (rule ccontr)
      assume "\<not> write_intermediate s"
      then show False using nwr len ep eq by simp
    qed
    have csv: "scores_csvs s' = scores_csvs s @ [?p]"
      and fil: "files s' = (files s)(?p \<mapsto> ?rows)"
      using wr [OF w] by simp_all
    have eq0: "epoch s = int (length (scores_csvs s))"
      using eq ep csv by simp
    have notin: "?p \<notin> set (scores_csvs s)"
      using paths by auto
    have agree0: "\<forall>q \<in> set (scores_csvs s). fs q = files s q"
    proof
      fix q assume q: "q \<in> set (scores_csvs s)"
      then have "q \<noteq> ?p" using notin by auto
      moreover have "fs q = files s' q" using agree q csv by simp
      ultimately show "fs q = files s q" using fil by simp
    qed
    from rep eq0 agree0 obtain t where
      t: "load_files (replay_start c fs ps) (scores_csvs s) = Inr t"
      and te: "epoch t = epoch s"
      by blast
    have ft: "pool t = c_pool c" "k_cfg t = c_k c" "files t = fs"
      using load_files_fields [OF t] by (simp_all add: replay_start_def blank_def)
    have fp: "fs ?p = Some ?rows"
      using agree csv fil by simp
    have rd: "read_scores (files t) ?p = Inr (sorted_desc (scores ?s1), failures ?s1)"
      using d1 fp ft(3) by (intro read_back) (simp_all add: distinct_keys_sorted_desc)
    have ok: "\<exists>a. avg (t\<lparr>scores := sorted_desc (scores ?s1)\<rparr>) None = Inr a"
      by (rule avg_ok_length [OF avg1]) (simp_all add: ft cfg clean_fields length_sorted_desc)
    from load_step_ok [OF rd ok] obtain t' where
      st: "load_step t ?p = Inr t'" and t'sc: "scores t' = sorted_desc (scores ?s1)"
      and t'fl: "failures t' = failures ?s1" and t'ep: "epoch t' = epoch t + 1"
      by blast
    have "load_files (replay_start c fs ps) (scores_csvs s') = Inr t'"
      unfolding csv load_files_append using t st by simp
    moreover have "map_of (scores t') = map_of (scores s')"
      using t'sc sc d1(1) by (simp add: map_of_sorted_desc)
    moreover have "map_of (failures t') = map_of (failures s')"
      using t'fl fl by simp
    moreover have "epoch t' = epoch s'"
      using t'ep te ep by simp
    ultimately show ?thesis by blast
  qed
  show ?thesis
    unfolding run_inv_def
    using cfg pl kc d1 sc fl paths' len' rep' by simp
qed

lemma run_inv_fields:
  assumes "run_inv c s"
    and "pool s' = pool s" "k_cfg s' = k_cfg s" "scores s' = scores s"
    and "failures s' = failures s" "epoch s' = epoch s"
    and "scores_csvs s' = scores_csvs s" "files s' = files s"
  shows "run_inv c s'"
proof -
  from assms(1) show ?thesis
    unfolding run_inv_def assms(2-) .
qed

lemma run_inv_exhausted:
  assumes "run_inv c s"
  shows "run_inv c (s\<lparr>epoch := epoch s + 1\<rparr>)"
  using assms unfolding run_inv_def by fastforce

lemma run_inv_explore_batch:
  assumes inv: "run_inv c s" and r: "explore_batch s preds b = Inr (s', a)"
  shows "run_inv c s'"
proof (cases "length (scores s) \<ge> length (pool s)")
  case True
  then have "s' = s\<lparr>epoch := epoch s + 1\<rparr>"
    using r by (auto simp: explore_batch_def split: if_splits)
  then show ?thesis using run_inv_exhausted [OF inv] by simp
next
  case False
  then obtain s1 where um: "update_model s = Inr s1"
    and sr: "score_round (update_predictions s1 preds) b = Inr (s', a)"
    using r by (auto simp: explore_batch_def split: if_splits sum.splits)
  have "run_inv c (update_predictions s1 preds)"
    by (rule run_inv_fields [OF inv])
       (simp_all add: update_predictions_fields update_model_fields [OF um])
  from run_inv_score_round [OF this sr] show ?thesis .
qed

lemma run_inv_run_loop:
  "run_inv c s \<Longrightarrow> run_loop s rs = Inr s' \<Longrightarrow> run_inv c s'"
proof (induction rs arbitrary: s)
  case Nil
  then show ?case by simp
next
  case (Cons r rs)
  show ?case
  proof (cases "completed s")
    case (Inl e)
    then show ?thesis using Cons.prems by simp
  next
    case (Inr fin)
    show ?thesis
    proof (cases fin)
      case True
      then show ?thesis using Cons.prems Inr by simp
    next
      case False
      then obtain s1 a where eb: "explore_batch s (fst r) (snd r) = Inr (s1, a)"
        and rest: "run_loop s1 rs = Inr s'"
        using Cons.prems(2) Inr by (auto split: sum.splits)
      from Cons.IH [OF run_inv_explore_batch [OF Cons.prems(1) eb] rest] show ?thesis .
    qed
  qed
qed

lemma run_inv_run_rounds:
  assumes "run_inv c s" and "run_rounds s rs = Inr s'"
  shows "run_inv c s'"
proof (cases rs)
  case Nil
  then show ?thesis using assms by simp
next
  case (Cons r rs1)
  then obtain s1 a where
    first: "(if epoch s = 0 then explore_initial s (snd r)
             else explore_batch s (fst r) (snd r)) = Inr (s1, a)"
    and rest: "run_loop s1 rs1 = Inr s'"
    using assms(2) by (auto split: sum.splits)
  have "run_inv c s1"
  proof (cases "epoch s = 0")
    case True
    then have "score_round s (snd r) = Inr (s1, a)"
      using first by (simp add: explore_initial_def)
    from run_inv_score_round [OF assms(1) this] show ?thesis .
  next
    case False
    then have "explore_batch s (fst r) (snd r) = Inr (s1, a)" using first by simp
    from run_inv_explore_batch [OF assms(1) this] show ?thesis .
  qed
  from run_inv_run_loop [OF this rest] show ?thesis .
qed

lemma init_fresh:
  assumes "c_previous_scores c = None" and "c_scores_csvs c = []" and "init c = Inr s0"
  shows "s0 = blank c \<and> \<not> c_provides c \<subset> c_needs c
         \<and> \<not> num_le_zero (c_k c) \<and> \<not> num_le_zero (c_max_explore c)"
  using assms
  by (auto simp: init_def set_k_def set_max_explore_def blank_def split: if_splits)

lemma run_inv_init:
  assumes "c_previous_scores c = None" and "c_scores_csvs c = []" and "init c = Inr s0"
  shows "run_inv c s0"
proof -
  have "s0 = blank c" using init_fresh [OF assms] by simp
  then show ?thesis
    using assms(2) unfolding run_inv_def
    by (simp add: blank_def replay_start_def)
qed

subsection \<open>Files of earlier epochs stay\<close>

lemma keeps_files_refl: "keeps_files s s"
  by (simp add: keeps_files_def)

lemma keeps_files_trans: "keeps_files s s' \<Longrightarrow> keeps_files s' s'' \<Longrightarrow> keeps_files s s''"
  unfolding keeps_files_def by fastforce

lemma keeps_files_score_round:
  assumes "score_round s b = Inr (s', a)"
  shows "keeps_files s s'"
  using score_round_result [OF assms]
  by (cases "write_intermediate s") (simp_all add: keeps_files_def)

lemma keeps_files_explore_batch:
  assumes r: "explore_batch s preds b = Inr (s', a)"
  shows "keeps_files s s'"
proof (cases "length (scores s) \<ge> length (pool s)")
  case True
  then have "s' = s\<lparr>epoch := epoch s + 1\<rparr>"
    using r by (auto simp: explore_batch_def split: if_splits)
  then show ?thesis by (simp add: keeps_files_def)
next
  case False
  then obtain s1 where um: "update_model s = Inr s1"
    and sr: "score_round (update_predictions s1 preds) b = Inr (s', a)"
    using r by (auto simp: explore_batch_def split: if_splits sum.splits)
  have "keeps_files s (update_predictions s1 preds)"
    by (simp add: keeps_files_def update_predictions_fields update_model_fields [OF um])
  from keeps_files_trans [OF this keeps_files_score_round [OF sr]] show ?thesis .
qed

lemma keeps_files_run_loop:
  "run_loop s rs = Inr s' \<Longrightarrow> keeps_files s s'"
proof (induction rs arbitrary: s)
  case Nil
  then show ?case by (simp add: keeps_files_refl)
next
  case (Cons r rs)
  show ?case
  proof (cases "completed s")
    case (Inl e)
    then show ?thesis using Cons.prems by simp
  next
    case (Inr fin)
    show ?thesis
    proof (cases fin)
      case True
      then show ?thesis using Cons.prems Inr by (simp add: keeps_files_refl)
    next
      case False
      then obtain s1 a where eb: "explore_batch s (fst r) (snd r) = Inr (s1, a)"
        and rest: "run_loop s1 rs = Inr s'"
        using Cons.prems Inr by (auto split: sum.splits)
      from keeps_files_trans [OF keeps_files_explore_batch [OF eb] Cons.IH [OF rest]]
      show ?thesis .
    qed
  qed
qed

lemma keeps_files_run_rounds:
  assumes "run_rounds s rs = Inr s'"
  shows "keeps_files s s'"
proof (cases rs)
  case Nil
  then show ?thesis using assms by (simp add: keeps_files_refl)
next
  case (Cons r rs1)
  then obtain s1 a where
    first: "(if epoch s = 0 then explore_initial s (snd r)
             else explore_batch s (fst r) (snd r)) = Inr (s1, a)"
    and rest: "run_loop s1 rs1 = Inr s'"
    using assms by (auto split: sum.splits)
  have "keeps_files s s1"
  proof (cases "epoch s = 0")
    case True
    then have "score_round s (snd r) = Inr (s1, a)"
      using first by (simp add: explore_initial_def)
    then show ?thesis by (rule keeps_files_score_round)
  next
    case False
    then have "explore_batch s (fst r) (snd r) = Inr (s1, a)" using first by simp
    then show ?thesis by (rule keeps_files_explore_batch)
  qed
  from keeps_files_trans [OF this keeps_files_run_loop [OF rest]] show ?thesis .
qed

lemma run_loop_append:
  "run_loop s (xs @ ys) = (case run_loop s xs of Inl e \<Rightarrow> Inl e | Inr s' \<Rightarrow> run_loop s' ys)"
proof (induction xs arbitrary: s)
  case Nil
  then show ?case by simp
next
  case (Cons x xs)
  show ?case
  proof (cases "completed s")
    case (Inl e)
    then show ?thesis by simp
  next
    case (Inr fin)
    show ?thesis
    proof (cases fin)
      case True
      then show ?thesis using Inr by (cases ys) simp_all
    next
      case False
      then show ?thesis using Inr Cons.IH by (auto split: sum.splits)
    qed
  qed
qed

lemma run_rounds_continue:
  assumes "run_rounds s0 rs = Inr s" and "run_rounds s0 (rs @ rs') = Inr sf"
  shows "keeps_files s sf"
proof (cases rs)
  case Nil
  then have "s = s0" using assms(1) by simp
  then show ?thesis using assms(2) Nil keeps_files_run_rounds by simp
next
  case (Cons r rs1)
  then obtain s1 a where
    first: "(if epoch s0 = 0 then explore_initial s0 (snd r)
             else explore_batch s0 (fst r) (snd r)) = Inr (s1, a)"
    and rest: "run_loop s1 rs1 = Inr s"
    using assms(1) by (auto split: sum.splits)
  have "run_loop s1 (rs1 @ rs') = Inr sf"
    using assms(2) Cons first by simp
  then have "run_loop s rs' = Inr sf"
    using rest by (simp add: run_loop_append)
  then show ?thesis by (rule keeps_files_run_loop)
qed

lemma init_replay:
  assumes "\<not> c_provides c \<subset> c_needs c" "\<not> num_le_zero (c_k c)"
    "\<not> num_le_zero (c_max_explore c)" "c_previous_scores c = None"
  shows "init (c\<lparr>c_scores_csvs := ps, c_files := fs\<rparr>) = load_files (replay_start c fs ps) ps"
  using assms
  by (simp add: init_def set_k_def set_max_explore_def load_def replay_start_def blank_def)


lemmas init_simps = init_def set_k_def set_max_explore_def load_def
  load_step_def load_scores_def read_scores_def read_row_def dict_update_def dict_mem_def

lemma demo_init: "init demo_config = Inr (blank demo_config)"
  by (simp add: init_simps demo_simps)

lemma demo_first_round:
  "\<exists>s. run_rounds (blank demo_config) [([], [(''C'', Some 9), (''E'', Some 7)])] = Inr s
       \<and> epoch s = int (length (scores_csvs s))"
  by (simp add: round_simps topk_simps demo_simps)

lemma demo_two_rounds:
  "\<exists>sf. run_rounds (blank demo_config)
          ([([], [(''C'', Some 9), (''E'', Some 7)])] @ [([], [(''A'', Some 5), (''B'', None)])])
        = Inr sf"
  by (simp add: round_simps topk_simps demo_simps completed_def max_explore_def)

text \<open>
  C2. Take a run of a newly constructed explorer (no previous scores, no score files
  given) and one of its epoch boundaries at which every round so far has written its
  score file (the epoch equals the number of files). Whatever the run does
  afterwards, a new explorer with the same configuration that is given the files
  written up to that boundary reconstructs, through \<open>load\<close>, the score map, the
  failure map and the epoch of that boundary.
\<close>

theorem replay_reconstructs_fresh_run:
  assumes "c_previous_scores c = None" and "c_scores_csvs c = []"
    and "init c = Inr s0"
    and "run_rounds s0 rs = Inr s"
    and "epoch s = int (length (scores_csvs s))"
    and "run_rounds s0 (rs @ rs') = Inr sf"
  shows "\<exists>t. init (c\<lparr>c_scores_csvs := scores_csvs s, c_files := files sf\<rparr>) = Inr t
           \<and> map_of (scores t) = map_of (scores s)
           \<and> map_of (failures t) = map_of (failures s)
           \<and> epoch t = epoch s"
proof -
  have inv: "run_inv c s"
    using run_inv_run_rounds [OF run_inv_init [OF assms(1-3)] assms(4)] .
  have kf: "keeps_files s sf"
    using run_rounds_continue [OF assms(4,6)] .
  from inv have paths: "\<forall>p \<in> set (scores_csvs s). \<exists>m e. p = TopExplored m e \<and> e < epoch s"
    and rep: "epoch s = int (length (scores_csvs s)) \<longrightarrow>
           (\<forall>fs ps. (\<forall>p \<in> set (scores_csvs s). fs p = files s p) \<longrightarrow>
              (\<exists>t. load_files (replay_start c fs ps) (scores_csvs s) = Inr t
                   \<and> map_of (scores t) = map_of (scores s)
                   \<and> map_of (failures t) = map_of (failures s)
                   \<and> epoch t = epoch s))"
    unfolding run_inv_def by blast+
  have agree: "\<forall>p \<in> set (scores_csvs s). files sf p = files s p"
    using paths kf unfolding keeps_files_def by fastforce
  from rep assms(5) agree obtain t where
    "load_files (replay_start c (files sf) (scores_csvs s)) (scores_csvs s) = Inr t"
    "map_of (scores t) = map_of (scores s)" "map_of (failures t) = map_of (failures s)"
    "epoch t = epoch s"
    by blast
  moreover have "init (c\<lparr>c_scores_csvs := scores_csvs s, c_files := files sf\<rparr>)
                   = load_files (replay_start c (files sf) (scores_csvs s)) (scores_csvs s)"
    using init_fresh [OF assms(1-3)] assms(1) by (intro init_replay) simp_all
  ultimately show ?thesis by simp
qed

theorem replay_reconstructs_fresh_run_witness:
  "c_previous_scores demo_config = None \<and> c_scores_csvs demo_config = []
   \<and> (case init demo_config of
         Inl e \<Rightarrow> False
       | Inr s0 \<Rightarrow>
           (case run_rounds s0 [([], [(''C'', Some 9), (''E'', Some 7)])] of
              Inl e \<Rightarrow> False
            | Inr s \<Rightarrow>
                (case run_rounds s0 ([([], [(''C'', Some 9), (''E'', Some 7)])]
                                      @ [([], [(''A'', Some 5), (''B'', None)])]) of
                   Inl e \<Rightarrow> False
                 | Inr sf \<Rightarrow>
                     epoch s = int (length (scores_csvs s))
                     \<and> (\<exists>t. init (demo_config\<lparr>c_scores_csvs := scores_csvs s,
                                              c_files := files sf\<rparr>) = Inr t
                            \<and> map_of (scores t) = map_of (scores s)
                            \<and> map_of (failures t) = map_of (failures s)
                            \<and> epoch t = epoch s))))"
proof -
  let ?r1 = "[([] :: real list, [(''C'', Some (9 :: real)), (''E'', Some 7)])]"
  let ?r2 = "[([] :: real list, [(''A'', Some (5 :: real)), (''B'', None)])]"
  have c1: "c_previous_scores demo_config = None" and c2: "c_scores_csvs demo_config = []"
    by (simp_all add: demo_config_def)
  obtain s where s: "run_rounds (blank demo_config) ?r1 = Inr s"
    and e: "epoch s = int (length (scores_csvs s))"
    using demo_first_round by blast
  obtain sf where sf: "run_rounds (blank demo_config) (?r1 @ ?r2) = Inr sf"
    using demo_two_rounds by blast
  from replay_reconstructs_fresh_run [OF c1 c2 demo_init s e sf]
  show ?thesis
    using c1 c2 s e sf by (simp add: demo_init)
qed

text \<open>A run seeded with previous scores starts at epoch 1 without a file for the
  seed: after its first round the epoch is 2, and loading its one file gives epoch 1
  (with the same scores).\<close>

theorem replay_epoch_differs_after_previous_scores:
  "(case init seeded_config of
      Inl e \<Rightarrow> False
    | Inr s0 \<Rightarrow>
        (case run_rounds s0 [([], [(''C'', Some 9)])] of
           Inl e \<Rightarrow> False
         | Inr s \<Rightarrow>
             (case init (seeded_config\<lparr>c_previous_scores := None,
                                       c_scores_csvs := scores_csvs s,
                                       c_files := files s\<rparr>) of
                Inl e \<Rightarrow> False
              | Inr t \<Rightarrow>
                  scores_csvs s = [TopExplored 3 1] \<and> epoch s = 2 \<and> epoch t = 1
                  \<and> scores s = [(''A'', 5), (''C'', 9)]
                  \<and> scores t = [(''C'', 9), (''A'', 5)])))"
  by (simp add: init_simps round_simps topk_simps demo_simps)

end
